theory Spec2Isabelle
  imports Complex_Main "HOL-Library.Word"
begin

section \<open>The turntable inhibitor of \<^verbatim>\<open>inhibitor.h\<close>\<close>

text \<open>
  The class \<^verbatim>\<open>Inhibitor\<close> holds two fields, the previous turn time
  (\<^verbatim>\<open>unsigned long mLastTurnTime\<close>) and the number of rounds for which ball release
  stays inhibited (\<^verbatim>\<open>unsigned short mInhibitRounds\<close>), and has three member
  functions: \<^verbatim>\<open>lightSpeedCallback\<close>, \<^verbatim>\<open>hallSpeedCallback\<close> and
  \<^verbatim>\<open>isInhibited\<close>. The embedding passes the object explicitly: each callback takes
  the object and returns the updated one.

  Integer types. \<^verbatim>\<open>unsigned long\<close> is taken with 64 bits (the LP64 data model) and
  \<^verbatim>\<open>unsigned short\<close> with 16 bits. The code does no arithmetic on
  \<^verbatim>\<open>unsigned long\<close> values, it only converts them to \<^verbatim>\<open>double\<close>, so an
  implementation with a 32-bit \<^verbatim>\<open>unsigned long\<close> behaves as this model does on the
  values below \<open>2 ^ 32\<close>.

  Floating point. \<^verbatim>\<open>double\<close> is taken as IEEE 754 binary64 with the default
  rounding (to nearest, ties to even) and every operation rounded once; the conversion
  of an integer and of the literal \<^verbatim>\<open>0.08\<close>, where C++ leaves the choice between
  the two neighbouring doubles to the implementation, round to nearest as well. The test in
  \<^verbatim>\<open>lightSpeedCallback\<close> converts both turn times, subtracts, takes
  \<^verbatim>\<open>fabs\<close>, divides and compares with the constant \<^verbatim>\<open>0.08\<close>; each of these
  steps is modelled below on the exact values of the doubles involved.
\<close>

subsection \<open>Binary64 values and rounding\<close>

text \<open>
  A double is a finite value, an infinity or a NaN. A finite double is represented by the
  rational number it denotes. The two zeros are not distinguished: in the one expression
  of the program a zero divisor is always the conversion of the integer 0, that is
  \<open>+0.0\<close>, and the dividend has passed through \<^verbatim>\<open>fabs\<close>, so the sign of a
  zero never reaches a result.
\<close>

datatype double = Finite rat | PlusInf | MinusInf | NaN

text \<open>
  \<open>ilog2 n\<close> is the position of the leading bit of a positive integer \<open>n\<close>, and
  \<open>expo x\<close> the binary exponent of a positive rational \<open>x\<close>: the integer \<open>e\<close>
  with \<open>2 ^ e \<le> x < 2 ^ (e + 1)\<close> (lemma \<open>expo_bounds\<close> below).
\<close>

function ilog2 :: "int \<Rightarrow> int" where
  "ilog2 n = (if n < 2 then 0 else 1 + ilog2 (n div 2))"
  by pat_completeness auto
termination
  by (relation "measure nat") auto

declare ilog2.simps [simp del]

definition expo :: "rat \<Rightarrow> int" where
  "expo x = (if 1 \<le> x then ilog2 \<lfloor>x\<rfloor> else - ilog2 (\<lceil>1 / x\<rceil> - 1) - 1)"

text \<open>
  Rounding to the nearest integer, a tie going to the even neighbour.
\<close>

definition round_half_even :: "rat \<Rightarrow> int" where
  "round_half_even y =
     (let f = \<lfloor>y\<rfloor>; r = y - of_int f in
      if r < 1 / 2 then f
      else if 1 / 2 < r then f + 1
      else if even f then f else f + 1)"

text \<open>
  Rounding of an exact result to binary64: a value in the binade \<open>[2 ^ e, 2 ^ (e + 1))\<close>
  is rounded on the grid of spacing \<open>2 ^ (e - 52)\<close>, which gives a significand of 53
  bits. The exponent is not bounded here. That loses nothing for this program: the values
  it computes from a non-zero sample are zero or of magnitude between \<open>2 ^ - 64\<close> and
  \<open>2 ^ 64\<close> (lemma \<open>deviation_values_in_range\<close> below), far inside the range of the
  normal binary64 numbers.
\<close>

definition rnd_pos :: "rat \<Rightarrow> rat" where
  "rnd_pos x = (let u = 2 powi (expo x - 52) in of_int (round_half_even (x / u)) * u)"

definition rnd :: "rat \<Rightarrow> rat" where
  "rnd x = (if x = 0 then 0 else if 0 < x then rnd_pos x else - rnd_pos (- x))"


subsection \<open>The operations on doubles used by the program\<close>

text \<open>
  \<^verbatim>\<open>static_cast<double>(n)\<close> for an \<^verbatim>\<open>unsigned long\<close>: the nearest double,
  which is \<open>n\<close> itself below \<open>2 ^ 53\<close> and may differ from \<open>n\<close> above.
\<close>

type_synonym ulong = "64 word"
type_synonym ushort = "16 word"

definition double_of_ulong :: "ulong \<Rightarrow> double" where
  "double_of_ulong n = Finite (rnd (of_int (uint n)))"

text \<open>
  Subtraction, \<^verbatim>\<open>fabs\<close>, division and the comparison \<^verbatim>\<open>>\<close>, with the IEEE
  rules for infinities and NaN. A finite non-zero value divided by zero is an infinity,
  zero divided by zero is NaN, and every comparison with a NaN is false.
\<close>

fun dsub :: "double \<Rightarrow> double \<Rightarrow> double" where
  "dsub (Finite a) (Finite b) = Finite (rnd (a - b))"
| "dsub NaN _ = NaN"
| "dsub _ NaN = NaN"
| "dsub PlusInf PlusInf = NaN"
| "dsub MinusInf MinusInf = NaN"
| "dsub PlusInf _ = PlusInf"
| "dsub MinusInf _ = MinusInf"
| "dsub (Finite _) PlusInf = MinusInf"
| "dsub (Finite _) MinusInf = PlusInf"

fun fabs :: "double \<Rightarrow> double" where
  "fabs (Finite a) = Finite \<bar>a\<bar>"
| "fabs PlusInf = PlusInf"
| "fabs MinusInf = PlusInf"
| "fabs NaN = NaN"

fun ddiv :: "double \<Rightarrow> double \<Rightarrow> double" where
  "ddiv (Finite a) (Finite b) =
     (if b = 0 then (if a = 0 then NaN else if 0 < a then PlusInf else MinusInf)
      else Finite (rnd (a / b)))"
| "ddiv NaN _ = NaN"
| "ddiv _ NaN = NaN"
| "ddiv (Finite _) PlusInf = Finite 0"
| "ddiv (Finite _) MinusInf = Finite 0"
| "ddiv PlusInf (Finite b) = (if 0 \<le> b then PlusInf else MinusInf)"
| "ddiv MinusInf (Finite b) = (if 0 \<le> b then MinusInf else PlusInf)"
| "ddiv PlusInf PlusInf = NaN"
| "ddiv PlusInf MinusInf = NaN"
| "ddiv MinusInf PlusInf = NaN"
| "ddiv MinusInf MinusInf = NaN"

fun dgreater :: "double \<Rightarrow> double \<Rightarrow> bool" where
  "dgreater (Finite a) (Finite b) = (b < a)"
| "dgreater NaN _ = False"
| "dgreater _ NaN = False"
| "dgreater PlusInf PlusInf = False"
| "dgreater PlusInf (Finite _) = True"
| "dgreater PlusInf MinusInf = True"
| "dgreater MinusInf _ = False"
| "dgreater (Finite _) MinusInf = True"
| "dgreater (Finite _) PlusInf = False"


subsection \<open>The class\<close>

text \<open>
  The constant \<^verbatim>\<open>RELATIVE_INHIBITION_THRESHOLD = 0.08\<close>: the literal denotes the double
  nearest to \<open>8 / 100\<close>, which is not \<open>8 / 100\<close> itself.
\<close>

definition RELATIVE_INHIBITION_THRESHOLD :: double where
  "RELATIVE_INHIBITION_THRESHOLD = Finite (rnd (8 / 100))"

text \<open>
  The object, and its state after construction (both member initialisers are 0).
\<close>

record Inhibitor =
  mLastTurnTime :: ulong
  mInhibitRounds :: ushort

definition Inhibitor_init :: Inhibitor where
  "Inhibitor_init = \<lparr>mLastTurnTime = 0, mInhibitRounds = 0\<rparr>"

text \<open>
  The left-hand side of the comparison in \<^verbatim>\<open>lightSpeedCallback\<close>:
  \<^verbatim>\<open>fabs(double(mLastTurnTime) - double(turnTime)) / double(turnTime)\<close>.
\<close>

definition relative_deviation :: "ulong \<Rightarrow> ulong \<Rightarrow> double" where
  "relative_deviation lastTurnTime turnTime =
     ddiv (fabs (dsub (double_of_ulong lastTurnTime) (double_of_ulong turnTime)))
          (double_of_ulong turnTime)"

text \<open>
  \<^verbatim>\<open>lightSpeedCallback\<close>: when the deviation exceeds the threshold the round counter
  is set to 2; the turn time is stored in either case. The debug output of the source
  writes to a log only and is left out.
\<close>

definition lightSpeedCallback :: "Inhibitor \<Rightarrow> ulong \<Rightarrow> Inhibitor" where
  "lightSpeedCallback s turnTime =
     (let s1 = (if dgreater (relative_deviation (mLastTurnTime s) turnTime)
                            RELATIVE_INHIBITION_THRESHOLD
                then s\<lparr>mInhibitRounds := 2\<rparr>
                else s)
      in s1\<lparr>mLastTurnTime := turnTime\<rparr>)"

text \<open>
  \<^verbatim>\<open>hallSpeedCallback\<close>: its parameter has no name in the source and is not read.
\<close>

definition hallSpeedCallback :: "Inhibitor \<Rightarrow> ulong \<Rightarrow> Inhibitor" where
  "hallSpeedCallback s turnTime =
     (if 0 < mInhibitRounds s then s\<lparr>mInhibitRounds := mInhibitRounds s - 1\<rparr> else s)"

definition isInhibited :: "Inhibitor \<Rightarrow> bool" where
  "isInhibited s = (mInhibitRounds s \<noteq> 0)"

text \<open>
  Sequences of calls on one object. \<^verbatim>\<open>isInhibited\<close> is a \<^verbatim>\<open>const\<close> member
  function, so as a call it leaves the object as it is.
\<close>

datatype call = LightSpeed ulong | HallSpeed ulong | IsInhibited

fun exec :: "Inhibitor \<Rightarrow> call \<Rightarrow> Inhibitor" where
  "exec s (LightSpeed t) = lightSpeedCallback s t"
| "exec s (HallSpeed t) = hallSpeedCallback s t"
| "exec s IsInhibited = s"

definition run :: "Inhibitor \<Rightarrow> call list \<Rightarrow> Inhibitor" where
  "run s cs = foldl exec s cs"


section \<open>Properties of the rounding\<close>


subsection \<open>The binary exponent\<close>


lemma ilog2_nonneg: "0 \<le> ilog2 n"
  by (induction n rule: ilog2.induct) (subst ilog2.simps, simp)

lemma ilog2_bounds:
  "1 \<le> n \<Longrightarrow> 2 ^ nat (ilog2 n) \<le> n \<and> n < 2 * 2 ^ nat (ilog2 n)"
proof (induction n rule: ilog2.induct)
  case (1 n)
  show ?case
  proof (cases "n < 2")
    case True
    with "1.prems" have "n = 1" by simp
    then show ?thesis by (simp add: ilog2.simps)
  next
    case False
    then have h: "1 \<le> n div 2" by simp
    define k where "k = nat (ilog2 (n div 2))"
    from "1.IH" [OF False h]
    have ih: "2 ^ k \<le> n div 2" "n div 2 < 2 * 2 ^ k"
      by (simp_all add: k_def)
    have e: "nat (ilog2 n) = Suc k"
      using False ilog2_nonneg [of "n div 2"]
      by (subst ilog2.simps) (simp add: k_def nat_add_distrib)
    have "2 * (n div 2) \<le> n" "n < 2 * (n div 2) + 2" by simp_all
    with ih show ?thesis unfolding e by simp
  qed
qed

lemma expo_bounds:
  assumes "0 < x"
  shows "2 powi (expo x) \<le> x \<and> x < 2 powi (expo x + 1)"
proof (cases "1 \<le> x")
  case True
  define n where "n = \<lfloor>x\<rfloor>"
  define k where "k = ilog2 n"
  have n1: "1 \<le> n" using True by (simp add: n_def le_floor_iff)
  have k0: "0 \<le> k" by (simp add: k_def ilog2_nonneg)
  from ilog2_bounds [OF n1]
  have b: "2 ^ nat k \<le> n" "n + 1 \<le> 2 * 2 ^ nat k"
    by (simp_all add: k_def)
  have e: "expo x = k" using True by (simp add: expo_def k_def n_def)
  have "(2::rat) powi k = of_int (2 ^ nat k)"
    using k0 by (simp add: power_int_def)
  also have "\<dots> \<le> of_int n" using b(1) by (simp only: of_int_le_iff)
  also have "\<dots> \<le> x" by (simp add: n_def)
  finally have lo: "2 powi k \<le> x" .
  have "x < of_int (n + 1)" using floor_correct [of x] by (simp add: n_def)
  also have "\<dots> \<le> of_int (2 * 2 ^ nat k)" using b(2) by (simp only: of_int_le_iff)
  also have "\<dots> = 2 powi (k + 1)"
    using k0 by (simp add: power_int_def nat_add_distrib)
  finally have hi: "x < 2 powi (k + 1)" .
  from lo hi e show ?thesis by simp
next
  case False
  define y where "y = 1 / x"
  define n where "n = \<lceil>y\<rceil> - 1"
  define k where "k = ilog2 n"
  have y1: "1 < y" using False assms by (simp add: y_def)
  have n1: "1 \<le> n" using y1 by (simp add: n_def less_ceiling_iff)
  have k0: "0 \<le> k" by (simp add: k_def ilog2_nonneg)
  from ilog2_bounds [OF n1]
  have b: "2 ^ nat k \<le> n" "n + 1 \<le> 2 * 2 ^ nat k"
    by (simp_all add: k_def)
  have e: "expo x = - k - 1" using False by (simp add: expo_def k_def n_def y_def)
  have ny: "of_int n < y" "y \<le> of_int (n + 1)"
    using ceiling_correct [of y] by (simp_all add: n_def)
  have "y \<le> of_int (2 * 2 ^ nat k)"
    using ny(2) b(2) by (meson of_int_le_iff order_trans)
  also have "\<dots> = 2 powi (k + 1)"
    using k0 by (simp add: power_int_def nat_add_distrib)
  finally have "1 / x \<le> 2 powi (k + 1)" by (simp add: y_def)
  then have "1 \<le> x * 2 powi (k + 1)" using assms by (simp add: field_simps)
  then have "1 / 2 powi (k + 1) \<le> x"
    by (simp add: field_simps)
  then have lo: "2 powi (- k - 1) \<le> x"
    using power_int_minus_divide [of "2::rat" "k + 1"] by simp
  have "(2::rat) powi k = of_int (2 ^ nat k)"
    using k0 by (simp add: power_int_def)
  also have "\<dots> \<le> of_int n" using b(1) by (simp only: of_int_le_iff)
  also have "\<dots> < y" by (rule ny(1))
  finally have "2 powi k < 1 / x" by (simp add: y_def)
  then have "x * 2 powi k < 1" using assms by (simp add: field_simps)
  then have "x < 1 / 2 powi k" by (simp add: field_simps)
  then have hi: "x < 2 powi (- k - 1 + 1)"
    using power_int_minus_divide [of "2::rat" "k"] by simp
  from lo hi e show ?thesis by simp
qed

lemma expo_unique:
  assumes "2 powi e \<le> x" and "x < 2 powi (e + 1)"
  shows "expo x = e"
proof -
  have x0: "0 < x"
    using assms(1) zero_less_power_int [of "2::rat" e] by linarith
  from expo_bounds [OF x0]
  have b: "2 powi (expo x) \<le> x" "x < 2 powi (expo x + 1)" by simp_all
  have "(2::rat) powi (expo x) < 2 powi (e + 1)" using b(1) assms(2) by linarith
  then have 1: "expo x < e + 1"
    by (metis linorder_not_less one_less_numeral_iff power_int_increasing
        semiring_norm(76) less_imp_le)
  have "(2::rat) powi e < 2 powi (expo x + 1)" using b(2) assms(1) by linarith
  then have 2: "e < expo x + 1"
    by (metis linorder_not_less one_less_numeral_iff power_int_increasing
        semiring_norm(76) less_imp_le)
  from 1 2 show ?thesis by simp
qed


subsection \<open>Rounding to nearest, ties to even\<close>


lemma round_half_even_of_int: "round_half_even (of_int k) = k"
  by (simp add: round_half_even_def)

lemma round_half_even_range:
  "\<lfloor>y\<rfloor> \<le> round_half_even y \<and> round_half_even y \<le> \<lfloor>y\<rfloor> + 1"
  by (simp add: round_half_even_def Let_def)

lemma round_half_even_mono:
  assumes "x \<le> y"
  shows "round_half_even x \<le> round_half_even y"
proof (cases "\<lfloor>x\<rfloor> = \<lfloor>y\<rfloor>")
  case True
  with assms show ?thesis
    by (auto simp add: round_half_even_def Let_def)
next
  case False
  with assms have "\<lfloor>x\<rfloor> + 1 \<le> \<lfloor>y\<rfloor>"
    using floor_mono [of x y] by linarith
  with round_half_even_range [of x] round_half_even_range [of y]
  show ?thesis by linarith
qed

lemma round_half_even_gt_odd:
  assumes "odd m"
  shows "m < round_half_even y \<longleftrightarrow> of_int m + 1 / 2 \<le> y"
proof (cases "\<lfloor>y\<rfloor> = m")
  case True
  with assms show ?thesis
    by (auto simp add: round_half_even_def Let_def)
next
  case False
  show ?thesis
  proof (cases "\<lfloor>y\<rfloor> < m")
    case True
    then have "y < of_int m" by (simp add: floor_less_iff)
    moreover have "round_half_even y \<le> m"
      using True round_half_even_range [of y] by linarith
    ultimately show ?thesis by simp
  next
    case b: False
    with False have "m + 1 \<le> \<lfloor>y\<rfloor>" by simp
    then have "of_int (m + 1) \<le> y" by (simp only: le_floor_iff)
    moreover have "m < round_half_even y"
      using \<open>m + 1 \<le> \<lfloor>y\<rfloor>\<close> round_half_even_range [of y] by linarith
    ultimately show ?thesis by simp
  qed
qed

lemma rnd_pos_binade:
  assumes "2 powi e \<le> x" and "x < 2 powi (e + 1)"
  shows "rnd_pos x = of_int (round_half_even (x / 2 powi (e - 52))) * 2 powi (e - 52)"
  using expo_unique [OF assms] by (simp add: rnd_pos_def Let_def)

lemma scaled_binade:
  fixes x :: rat
  assumes "2 powi e \<le> x" and "x < 2 powi (e + 1)"
  shows "2 ^ 52 \<le> x / 2 powi (e - 52)" and "x / 2 powi (e - 52) < 2 ^ 53"
proof -
  have u: "(2::rat) powi (e - 52) = 2 powi e / 2 ^ 52"
    by (simp add: power_int_diff)
  have p: "(0::rat) < 2 powi e" by simp
  show "2 ^ 52 \<le> x / 2 powi (e - 52)"
    using assms(1) p unfolding u by (simp add: field_simps)
  have "(2::rat) powi (e + 1) = 2 * 2 powi e" by (simp add: power_int_add)
  then show "x / 2 powi (e - 52) < 2 ^ 53"
    using assms(2) p unfolding u by (simp add: field_simps)
qed

lemma rnd_pos_exact:
  assumes "0 < k" and "k < 2 ^ 53"
  shows "rnd_pos (of_int k * 2 powi j) = of_int k * 2 powi j"
proof -
  define x :: rat where "x = of_int k * 2 powi j"
  define e where "e = expo x"
  have x0: "0 < x" using assms(1) by (simp add: x_def)
  from expo_bounds [OF x0]
  have b: "2 powi e \<le> x" "x < 2 powi (e + 1)" by (simp_all add: e_def)
  have "rat_of_int k < of_int (2 ^ 53)" using assms(2) by (simp only: of_int_less_iff)
  then have "x < 2 ^ 53 * 2 powi j" by (simp add: x_def)
  also have "\<dots> = 2 powi (53 + j)" by (simp add: power_int_add)
  finally have "(2::rat) powi e < 2 powi (53 + j)" using b(1) by linarith
  then have "e < 53 + j"
    by (metis linorder_not_less one_less_numeral_iff power_int_increasing
        semiring_norm(76) less_imp_le)
  then have d0: "0 \<le> j - (e - 52)" by simp
  have "x / 2 powi (e - 52) = of_int k * 2 powi (j - (e - 52))"
    by (simp add: x_def power_int_diff)
  also have "\<dots> = of_int (k * 2 ^ nat (j - (e - 52)))"
    using d0 by (simp add: power_int_def)
  finally have s: "x / 2 powi (e - 52) = of_int (k * 2 ^ nat (j - (e - 52)))" .
  have "rnd_pos x = x / 2 powi (e - 52) * 2 powi (e - 52)"
    unfolding rnd_pos_binade [OF b] unfolding s round_half_even_of_int ..
  also have "\<dots> = x" by simp
  finally show ?thesis by (simp add: x_def)
qed

lemma rnd_pos_bounds:
  assumes "2 powi e \<le> x" and "x < 2 powi (e + 1)"
  shows "2 powi e \<le> rnd_pos x" and "rnd_pos x \<le> 2 powi (e + 1)"
    and "\<exists>m. 2 ^ 52 \<le> m \<and> m \<le> 2 ^ 53 \<and> rnd_pos x = of_int m * 2 powi (e - 52)"
proof -
  define m where "m = round_half_even (x / 2 powi (e - 52))"
  have r: "rnd_pos x = of_int m * 2 powi (e - 52)"
    by (simp add: rnd_pos_binade [OF assms] m_def)
  from scaled_binade [OF assms]
  have "rat_of_int (2 ^ 52) \<le> x / 2 powi (e - 52)" "x / 2 powi (e - 52) \<le> of_int (2 ^ 53)"
    by simp_all
  from round_half_even_mono [OF this(1)] round_half_even_mono [OF this(2)]
  have m: "2 ^ 52 \<le> m" "m \<le> 2 ^ 53"
    unfolding round_half_even_of_int by (simp_all add: m_def)
  then have mr: "(2::rat) ^ 52 \<le> of_int m" "rat_of_int m \<le> 2 ^ 53"
    by (metis of_int_le_iff of_int_numeral of_int_power)+
  have u: "(2::rat) powi (e - 52) = 2 powi e / 2 ^ 52"
    by (simp add: power_int_diff)
  have p: "(0::rat) < 2 powi e" by simp
  show "2 powi e \<le> rnd_pos x"
    using mr(1) p unfolding r u by (simp add: field_simps)
  have "(2::rat) powi (e + 1) = 2 * 2 powi e" by (simp add: power_int_add)
  then show "rnd_pos x \<le> 2 powi (e + 1)"
    using mr(2) p unfolding r u by (simp add: field_simps)
  from m r show "\<exists>m. 2 ^ 52 \<le> m \<and> m \<le> 2 ^ 53 \<and> rnd_pos x = of_int m * 2 powi (e - 52)"
    by blast
qed

lemma rnd_pos_positive: "0 < x \<Longrightarrow> 0 < rnd_pos x"
proof -
  assume x0: "0 < x"
  from expo_bounds [OF x0] have "2 powi (expo x) \<le> rnd_pos x"
    by (intro rnd_pos_bounds(1)) simp_all
  moreover have "(0::rat) < 2 powi (expo x)" by simp
  ultimately show ?thesis by linarith
qed

lemma rnd_pos_idem:
  assumes "0 < x"
  shows "rnd_pos (rnd_pos x) = rnd_pos x"
proof -
  from expo_bounds [OF assms]
  have b: "2 powi (expo x) \<le> x" "x < 2 powi (expo x + 1)" by simp_all
  from rnd_pos_bounds(3) [OF b] obtain m where
    m: "2 ^ 52 \<le> m" "m \<le> 2 ^ 53" "rnd_pos x = of_int m * 2 powi (expo x - 52)"
    by blast
  show ?thesis
  proof (cases "m = 2 ^ 53")
    case True
    have "rnd_pos x = of_int 1 * 2 powi (expo x + 1)"
      unfolding m(3) True by (simp add: power_int_diff power_int_add)
    then show ?thesis using rnd_pos_exact [of 1 "expo x + 1"] by simp
  next
    case False
    with m have "0 < m" "m < 2 ^ 53" by simp_all
    from rnd_pos_exact [OF this, of "expo x - 52"] show ?thesis
      unfolding m(3) .
  qed
qed

lemma rnd_zero [simp]: "rnd 0 = 0"
  by (simp add: rnd_def)

lemma rnd_minus: "rnd (- x) = - rnd x"
  by (simp add: rnd_def)

lemma rnd_of_int_exact:
  assumes "\<bar>k\<bar> < 2 ^ 53"
  shows "rnd (of_int k) = of_int k"
proof -
  have p: "rnd (of_int n) = of_int n" if "0 < n" "n < 2 ^ 53" for n :: int
    using rnd_pos_exact [OF that, of 0] that(1) by (simp add: rnd_def)
  consider "k = 0" | "0 < k" | "k < 0" by linarith
  then show ?thesis
  proof cases
    case 1
    then show ?thesis by simp
  next
    case 2
    with assms show ?thesis by (intro p) simp_all
  next
    case 3
    with assms have "rnd (of_int (- k)) = of_int (- k)" by (intro p) simp_all
    then show ?thesis using rnd_minus [of "of_int k"] by simp
  qed
qed

lemma rnd_idem: "rnd (rnd x) = rnd x"
proof -
  consider "x = 0" | "0 < x" | "x < 0" by linarith
  then show ?thesis
  proof cases
    case 1
    then show ?thesis by simp
  next
    case 2
    then show ?thesis
      using rnd_pos_idem [OF 2] rnd_pos_positive [OF 2] by (simp add: rnd_def)
  next
    case 3
    then have 4: "0 < - x" by simp
    show ?thesis
      using 3 rnd_pos_idem [OF 4] rnd_pos_positive [OF 4] by (simp add: rnd_def)
  qed
qed

lemma rnd_sign:
  "0 < x \<Longrightarrow> 0 < rnd x" "x < 0 \<Longrightarrow> rnd x < 0"
  using rnd_pos_positive [of x] rnd_pos_positive [of "- x"] by (simp_all add: rnd_def)

lemma rnd_one [simp]: "rnd 1 = 1"
  using rnd_of_int_exact [of 1] by simp

text \<open>
  The rounding is a rounding to nearest: the result lies on the 53-bit grid of the binade
  (\<open>rnd_pos_bounds\<close>), it is at most half a grid step away from the exact value, a tie
  goes to the even significand, values on the grid are left alone (\<open>rnd_pos_exact\<close>),
  and the rounding is monotone.
\<close>

lemma round_half_even_error: "\<bar>of_int (round_half_even y) - y\<bar> \<le> 1 / 2"
proof -
  have "rat_of_int \<lfloor>y\<rfloor> \<le> y" "y < of_int \<lfloor>y\<rfloor> + 1"
    using floor_correct [of y] by simp_all
  then show ?thesis
    by (auto simp add: round_half_even_def Let_def abs_le_iff)
qed

lemma round_half_even_tie:
  assumes "\<bar>of_int (round_half_even y) - y\<bar> = 1 / 2"
  shows "even (round_half_even y)"
proof -
  define r where "r = y - of_int \<lfloor>y\<rfloor>"
  have r: "0 \<le> r" "r < 1"
    using floor_correct [of y] by (simp_all add: r_def)
  consider "r < 1 / 2" | "1 / 2 < r" | "r = 1 / 2" by linarith
  then show ?thesis
  proof cases
    case 1
    then have "of_int (round_half_even y) - y = - r"
      by (simp add: round_half_even_def Let_def r_def)
    with assms 1 r show ?thesis by simp
  next
    case 2
    then have "of_int (round_half_even y) - y = 1 - r"
      by (simp add: round_half_even_def Let_def r_def)
    with assms 2 r show ?thesis by simp
  next
    case 3
    then show ?thesis by (simp add: round_half_even_def Let_def r_def)
  qed
qed

lemma rnd_pos_error:
  assumes "0 < x"
  shows "\<bar>rnd_pos x - x\<bar> \<le> 2 powi (expo x - 53)"
proof -
  define u :: rat where "u = 2 powi (expo x - 52)"
  have u0: "0 < u" by (simp add: u_def)
  have h: "(2::rat) powi (expo x - 53) = u / 2"
    by (simp add: u_def power_int_diff)
  have "rnd_pos x - x = (of_int (round_half_even (x / u)) - x / u) * u"
    using u0 by (simp add: rnd_pos_def Let_def u_def [symmetric] field_simps)
  then have "\<bar>rnd_pos x - x\<bar> = \<bar>of_int (round_half_even (x / u)) - x / u\<bar> * u"
    using u0 by (simp add: abs_mult)
  also have "\<dots> \<le> 1 / 2 * u"
    using round_half_even_error [of "x / u"] u0 by (intro mult_right_mono) simp_all
  finally show ?thesis by (simp add: h)
qed

lemma rnd_pos_mono:
  assumes "0 < x" and "x \<le> y"
  shows "rnd_pos x \<le> rnd_pos y"
proof -
  have y0: "0 < y" using assms by linarith
  from expo_bounds [OF assms(1)]
  have bx: "2 powi (expo x) \<le> x" "x < 2 powi (expo x + 1)" by simp_all
  from expo_bounds [OF y0]
  have cy: "2 powi (expo y) \<le> y" "y < 2 powi (expo y + 1)" by simp_all
  have "(2::rat) powi (expo x) < 2 powi (expo y + 1)"
    using bx(1) cy(2) assms(2) by linarith
  then have le: "expo x < expo y + 1"
    by (metis linorder_not_less one_less_numeral_iff power_int_increasing
        semiring_norm(76) less_imp_le)
  show ?thesis
  proof (cases "expo x = expo y")
    case True
    define u :: rat where "u = 2 powi (expo y - 52)"
    have u0: "0 < u" by (simp add: u_def)
    have "x / u \<le> y / u" using assms(2) u0 by (simp add: divide_right_mono)
    from round_half_even_mono [OF this]
    have "rat_of_int (round_half_even (x / u)) \<le> of_int (round_half_even (y / u))"
      by (simp only: of_int_le_iff)
    then show ?thesis
      using u0 by (simp add: rnd_pos_def Let_def True u_def [symmetric] mult_right_mono)
  next
    case False
    with le have "expo x + 1 \<le> expo y" by simp
    then have "(2::rat) powi (expo x + 1) \<le> 2 powi (expo y)"
      by (intro power_int_increasing) simp_all
    with rnd_pos_bounds(2) [OF bx] rnd_pos_bounds(1) [OF cy]
    show ?thesis by linarith
  qed
qed

lemma rnd_mono:
  assumes "x \<le> y"
  shows "rnd x \<le> rnd y"
proof -
  consider "0 < x" | "x = 0" | "x < 0" by linarith
  then show ?thesis
  proof cases
    case 1
    with assms rnd_pos_mono [OF 1 assms] show ?thesis by (simp add: rnd_def)
  next
    case 2
    with assms rnd_pos_positive [of y] show ?thesis
      by (cases "y = 0") (simp_all add: rnd_def less_imp_le)
  next
    case 3
    show ?thesis
    proof (cases "y < 0")
      case True
      then have "0 < - y" "- y \<le> - x" using assms by simp_all
      from rnd_pos_mono [OF this] 3 True show ?thesis by (simp add: rnd_def)
    next
      case False
      then have "0 \<le> rnd y" using rnd_pos_positive [of y]
        by (cases "y = 0") (simp_all add: rnd_def less_imp_le)
      moreover have "rnd x < 0" using 3 by (rule rnd_sign(2))
      ultimately show ?thesis by linarith
    qed
  qed
qed

lemma rnd_pow2 [simp]: "rnd (2 powi j) = 2 powi j"
  using rnd_pos_exact [of 1 j] by (simp add: rnd_def)

lemma rnd_of_int_integral: "\<exists>k. rnd (of_int n) = of_int k"
proof -
  have pos: "\<exists>k. rnd_pos (of_int n) = of_int k" if "0 < n" for n :: int
  proof (cases "n < 2 ^ 53")
    case True
    with rnd_pos_exact [OF that True, of 0] show ?thesis by auto
  next
    case False
    define x :: rat where "x = of_int n"
    have x0: "0 < x" using that by (simp add: x_def)
    from expo_bounds [OF x0]
    have b: "2 powi (expo x) \<le> x" "x < 2 powi (expo x + 1)" by simp_all
    have "rat_of_int (2 ^ 53) \<le> of_int n" using False by (simp only: of_int_le_iff)
    then have "(2::rat) powi 53 \<le> x" by (simp add: x_def)
    with b(2) have "(2::rat) powi 53 < 2 powi (expo x + 1)" by linarith
    then have "53 < expo x + 1"
      by (metis linorder_not_less one_less_numeral_iff power_int_increasing
          semiring_norm(76) less_imp_le)
    then have e: "0 \<le> expo x - 52" by simp
    have "rnd_pos x = of_int (round_half_even (x / 2 powi (expo x - 52)) * 2 ^ nat (expo x - 52))"
      using e by (simp add: rnd_pos_def Let_def power_int_def)
    then show ?thesis unfolding x_def by blast
  qed
  consider "n = 0" | "0 < n" | "n < 0" by linarith
  then show ?thesis
  proof cases
    case 1
    then show ?thesis by (simp add: exI [of _ 0])
  next
    case 2
    with pos [OF 2] show ?thesis by (simp add: rnd_def)
  next
    case 3
    then have "0 < - n" by simp
    from pos [OF this] obtain k where "rnd_pos (of_int (- n)) = of_int k" by blast
    with 3 have "rnd (of_int n) = of_int (- k)" by (simp add: rnd_def)
    then show ?thesis by blast
  qed
qed

lemma rnd_abs: "\<bar>rnd x\<bar> = rnd \<bar>x\<bar>"
proof -
  consider "0 < x" | "x = 0" | "x < 0" by linarith
  then show ?thesis
  proof cases
    case 1
    then show ?thesis using rnd_sign(1) [OF 1] by simp
  next
    case 2
    then show ?thesis by simp
  next
    case 3
    then show ?thesis using rnd_sign(2) [OF 3] by (simp add: rnd_minus)
  qed
qed

lemma rnd_ge_pow2: "2 powi i \<le> x \<Longrightarrow> 2 powi i \<le> rnd x"
  using rnd_mono [of "2 powi i" x] by (simp only: rnd_pow2)

lemma rnd_le_pow2: "x \<le> 2 powi j \<Longrightarrow> rnd x \<le> 2 powi j"
  using rnd_mono [of x "2 powi j"] by (simp only: rnd_pow2)


subsection \<open>The threshold test\<close>

text \<open>
  The double nearest to \<open>8 / 100\<close> is \<open>5764607523034235 / 2 ^ 56\<close>, slightly above
  \<open>8 / 100\<close>. Its significand is odd, so the midpoint to the next double rounds up, and
  a positive exact quotient \<open>x\<close> rounds to a double above the threshold exactly when
  \<open>x\<close> reaches that midpoint, \<open>11529215046068471 / 2 ^ 57\<close>.
\<close>

lemma threshold_value: "rnd (2 / 25) = 5764607523034235 / 2 ^ 56"
  by code_simp

lemma rnd_gt_threshold:
  assumes "0 < x"
  shows "rnd (2 / 25) < rnd x \<longleftrightarrow> 11529215046068471 / 2 ^ 57 \<le> x"
proof -
  define e where "e = expo x"
  from expo_bounds [OF assms]
  have b: "2 powi e \<le> x" "x < 2 powi (e + 1)" by (simp_all add: e_def)
  have r: "rnd x = rnd_pos x" using assms by (simp add: rnd_def)
  consider "e \<le> - 5" | "e = - 4" | "- 3 \<le> e" by linarith
  then show ?thesis
  proof cases
    case 1
    then have "(2::rat) powi (e + 1) \<le> 2 powi (- 4)"
      by (intro power_int_increasing) simp_all
    then have u: "(2::rat) powi (e + 1) \<le> 1 / 16" by simp
    from rnd_pos_bounds(2) [OF b] u have "rnd x \<le> 1 / 16" unfolding r by linarith
    moreover from b(2) u have "x < 1 / 16" by linarith
    ultimately show ?thesis by (simp add: threshold_value)
  next
    case 2
    have "rnd x = of_int (round_half_even (x / 2 powi (- 56))) * 2 powi (- 56)"
      using rnd_pos_binade [OF b] unfolding r 2 by simp
    then have v: "rnd x = of_int (round_half_even (x * 2 ^ 56)) / 2 ^ 56"
      by (simp add: power_int_minus field_simps)
    have "rnd (2 / 25) < rnd x \<longleftrightarrow>
          rat_of_int 5764607523034235 < of_int (round_half_even (x * 2 ^ 56))"
      unfolding v threshold_value by (simp add: field_simps)
    also have "\<dots> \<longleftrightarrow> 5764607523034235 < round_half_even (x * 2 ^ 56)"
      by (simp only: of_int_less_iff)
    also have "\<dots> \<longleftrightarrow> of_int 5764607523034235 + 1 / 2 \<le> x * 2 ^ 56"
      by (rule round_half_even_gt_odd) simp
    also have "\<dots> \<longleftrightarrow> 11529215046068471 / 2 ^ 57 \<le> x"
      by (simp add: field_simps)
    finally show ?thesis .
  next
    case 3
    then have "(2::rat) powi (- 3) \<le> 2 powi e"
      by (intro power_int_increasing) simp_all
    then have u: "1 / 8 \<le> (2::rat) powi e" by simp
    from rnd_pos_bounds(1) [OF b] u have "1 / 8 \<le> rnd x" unfolding r by linarith
    moreover from b(1) u have "1 / 8 \<le> x" by linarith
    ultimately show ?thesis by (simp add: threshold_value)
  qed
qed

lemma deviation_test_exact:
  fixes m p :: int
  assumes "0 \<le> m" and "0 < p" and "31 * p \<le> 2 ^ 57"
  shows "rnd (2 / 25) < rnd (of_int m / of_int p) \<longleftrightarrow> 2 / 25 < rat_of_int m / of_int p"
proof (cases "m = 0")
  case True
  then show ?thesis by (simp add: threshold_value)
next
  case False
  define M :: rat where "M = of_int m"
  define P :: rat where "P = of_int p"
  have P0: "0 < P" using assms(2) by (simp add: P_def)
  have M0: "0 < M" using assms(1) False by (simp add: M_def)
  have "rat_of_int (31 * p) \<le> of_int (2 ^ 57)" using assms(3) by (simp only: of_int_le_iff)
  then have bound: "31 * P \<le> 2 ^ 57" by (simp add: P_def)
  have x0: "0 < M / P" using M0 P0 by simp
  have c: "11529215046068471 / 2 ^ 57 \<le> M / P \<longleftrightarrow> 11529215046068471 * P \<le> 2 ^ 57 * M"
    using P0 by (simp add: field_simps)
  have d: "2 / 25 < M / P \<longleftrightarrow> 2 * P < 25 * M"
    using P0 by (simp add: field_simps)
  have "11529215046068471 * P \<le> 2 ^ 57 * M \<longleftrightarrow> 2 * P < 25 * M"
  proof
    assume "11529215046068471 * P \<le> 2 ^ 57 * M"
    with P0 show "2 * P < 25 * M" by simp
  next
    assume "2 * P < 25 * M"
    then have "rat_of_int (2 * p) < of_int (25 * m)" by (simp add: M_def P_def)
    then have "2 * p < 25 * m" by (simp only: of_int_less_iff)
    then have "2 * p + 1 \<le> 25 * m" by simp
    then have "rat_of_int (2 * p + 1) \<le> of_int (25 * m)" by (simp only: of_int_le_iff)
    then have "2 * P + 1 \<le> 25 * M" by (simp add: M_def P_def)
    with bound show "11529215046068471 * P \<le> 2 ^ 57 * M" by simp
  qed
  with rnd_gt_threshold [OF x0] c d show ?thesis
    unfolding M_def P_def by blast
qed

lemma dev_exact_int:
  fixes u v :: int
  assumes "0 \<le> u" and "u < 2 ^ 53" and "0 < v" and "v < 2 ^ 53"
  shows "ddiv (fabs (dsub (Finite (rnd (of_int u))) (Finite (rnd (of_int v)))))
              (Finite (rnd (of_int v)))
         = Finite (rnd (\<bar>of_int u - of_int v\<bar> / of_int v))"
proof -
  have u: "rnd (of_int u) = of_int u" using assms by (intro rnd_of_int_exact) simp
  have v: "rnd (of_int v) = of_int v" using assms by (intro rnd_of_int_exact) simp
  have "\<bar>u - v\<bar> < 2 ^ 53" using assms by linarith
  from rnd_of_int_exact [OF this]
  have d: "rnd (of_int u - of_int v) = of_int u - of_int v" by simp
  show ?thesis using assms(3) by (simp add: u v d)
qed

lemma dev_from_zero_int:
  fixes v :: int
  assumes "0 < v"
  shows "ddiv (fabs (dsub (Finite (rnd (of_int 0))) (Finite (rnd (of_int v)))))
              (Finite (rnd (of_int v))) = Finite 1"
proof -
  define b where "b = rnd (of_int v)"
  have b0: "0 < b" unfolding b_def using assms by (intro rnd_sign(1)) simp
  have bb: "rnd b = b" unfolding b_def by (rule rnd_idem)
  have "rnd (- b) = - b" by (simp add: rnd_minus bb)
  with b0 show ?thesis by (simp flip: b_def)
qed

lemma dev_same_int:
  fixes v :: int
  assumes "0 < v"
  shows "ddiv (fabs (dsub (Finite (rnd (of_int v))) (Finite (rnd (of_int v)))))
              (Finite (rnd (of_int v))) = Finite 0"
proof -
  have "0 < rnd (of_int v)" using assms by (intro rnd_sign(1)) simp
  then show ?thesis by simp
qed

lemma uint_pos: "p \<noteq> 0 \<Longrightarrow> 0 < uint p"
  by (simp add: word_neq_0_conv word_less_def)

lemma relative_deviation_exact:
  assumes "uint a < 2 ^ 53" and "uint p < 2 ^ 53" and "p \<noteq> 0"
  shows "relative_deviation a p =
           Finite (rnd (\<bar>of_int (uint a) - of_int (uint p)\<bar> / of_int (uint p)))"
  unfolding relative_deviation_def double_of_ulong_def
  using assms uint_pos [of p] by (intro dev_exact_int) simp_all

lemma relative_deviation_from_zero:
  assumes "p \<noteq> 0"
  shows "relative_deviation 0 p = Finite 1"
  unfolding relative_deviation_def double_of_ulong_def
  using dev_from_zero_int [OF uint_pos [OF assms]] by simp

lemma relative_deviation_same:
  assumes "p \<noteq> 0"
  shows "relative_deviation p p = Finite 0"
  unfolding relative_deviation_def double_of_ulong_def
  by (rule dev_same_int [OF uint_pos [OF assms]])

lemma threshold_eq: "RELATIVE_INHIBITION_THRESHOLD = Finite (rnd (2 / 25))"
  by (simp add: RELATIVE_INHIBITION_THRESHOLD_def)

subsection \<open>The values of the computation stay in the normal range\<close>

text \<open>
  Every converted turn time is an integer between 0 and \<open>2 ^ 64\<close>. For a non-zero
  sample the difference is finite, and zero or of magnitude between 1 and \<open>2 ^ 64\<close>;
  the quotient is finite, and zero or between \<open>2 ^ - 64\<close> and \<open>2 ^ 64\<close>. So no
  operation of \<^verbatim>\<open>lightSpeedCallback\<close> overflows or produces a subnormal number, and
  rounding with an unbounded exponent is the binary64 rounding on these values.
\<close>

lemma double_of_ulong_range:
  "\<exists>k. double_of_ulong n = Finite (of_int k) \<and> 0 \<le> k \<and> k \<le> 2 ^ 64 \<and> (n \<noteq> 0 \<longrightarrow> 1 \<le> k)"
proof -
  define x :: rat where "x = of_int (uint n)"
  obtain k where k: "rnd x = of_int k"
    unfolding x_def using rnd_of_int_integral [of "uint n"] by blast
  have "uint n < 2 ^ 64" using uint_lt2p [of n] by simp
  then have "uint n \<le> 2 ^ 64" by simp
  then have "rat_of_int (uint n) \<le> of_int (2 ^ 64)" by (simp only: of_int_le_iff)
  then have "x \<le> 2 powi 64" by (simp add: x_def)
  from rnd_le_pow2 [OF this] have "rat_of_int k \<le> of_int (2 ^ 64)" by (simp add: k)
  then have hi: "k \<le> 2 ^ 64" by (simp only: of_int_le_iff)
  have "rat_of_int 0 \<le> of_int (uint n)" by (simp only: of_int_le_iff) simp
  then have "0 \<le> x" by (simp add: x_def)
  from rnd_mono [OF this] have "rat_of_int 0 \<le> of_int k" by (simp add: k)
  then have lo: "0 \<le> k" by (simp only: of_int_le_iff)
  have one: "1 \<le> k" if "n \<noteq> 0"
  proof -
    from uint_pos [OF that] have "1 \<le> uint n" by simp
    then have "rat_of_int 1 \<le> of_int (uint n)" by (simp only: of_int_le_iff)
    then have "1 \<le> x" by (simp add: x_def)
    from rnd_mono [OF this] have "rat_of_int 1 \<le> of_int k" by (simp add: k)
    then show ?thesis by (simp only: of_int_le_iff)
  qed
  from k lo hi one show ?thesis
    unfolding double_of_ulong_def x_def by blast
qed

lemma deviation_values_in_range:
  assumes "p \<noteq> 0"
  shows "\<exists>d q. dsub (double_of_ulong a) (double_of_ulong p) = Finite d
           \<and> (d = 0 \<or> (1 \<le> \<bar>d\<bar> \<and> \<bar>d\<bar> \<le> 2 ^ 64))
           \<and> relative_deviation a p = Finite q
           \<and> (q = 0 \<or> (1 / 2 ^ 64 \<le> q \<and> q \<le> 2 ^ 64))"
proof -
  from double_of_ulong_range [of a] obtain ka where
    ka: "double_of_ulong a = Finite (of_int ka)" "0 \<le> ka" "ka \<le> 2 ^ 64" by blast
  from double_of_ulong_range [of p] assms obtain kp where
    kp: "double_of_ulong p = Finite (of_int kp)" "1 \<le> kp" "kp \<le> 2 ^ 64" by blast
  define d where "d = rnd (rat_of_int (ka - kp))"
  define q where "q = rnd (\<bar>d\<bar> / of_int kp)"
  have kp0: "rat_of_int kp \<noteq> 0" using kp(2) by simp
  have sub: "dsub (double_of_ulong a) (double_of_ulong p) = Finite d"
    by (simp add: ka(1) kp(1) d_def)
  have dev: "relative_deviation a p = Finite q"
    unfolding relative_deviation_def sub unfolding kp(1) using kp0 by (simp add: q_def)
  have kpr: "1 \<le> rat_of_int kp" "rat_of_int kp \<le> 2 ^ 64"
    using kp(2,3) by (metis of_int_le_iff of_int_1, metis of_int_le_iff of_int_numeral of_int_power)
  show ?thesis
  proof (cases "ka = kp")
    case True
    then have "d = 0" "q = 0" by (simp_all add: d_def q_def)
    with sub dev show ?thesis by blast
  next
    case False
    then have "1 \<le> \<bar>ka - kp\<bar>" "\<bar>ka - kp\<bar> \<le> 2 ^ 64"
      using ka(2,3) kp(2,3) by linarith+
    then have "rat_of_int 1 \<le> of_int \<bar>ka - kp\<bar>" "rat_of_int \<bar>ka - kp\<bar> \<le> of_int (2 ^ 64)"
      by (simp_all only: of_int_le_iff)
    then have "2 powi 0 \<le> \<bar>rat_of_int (ka - kp)\<bar>" "\<bar>rat_of_int (ka - kp)\<bar> \<le> 2 powi 64"
      by simp_all
    from rnd_ge_pow2 [OF this(1)] rnd_le_pow2 [OF this(2)]
    have dr: "1 \<le> \<bar>d\<bar>" "\<bar>d\<bar> \<le> 2 ^ 64"
      by (simp_all add: d_def rnd_abs)
    have "1 / 2 ^ 64 \<le> \<bar>d\<bar> / rat_of_int kp"
      using dr(1) kpr by (simp add: field_simps)
    then have l: "2 powi (- 64) \<le> \<bar>d\<bar> / rat_of_int kp"
      by (simp add: power_int_minus field_simps)
    have "\<bar>d\<bar> * 1 \<le> \<bar>d\<bar> * rat_of_int kp"
      using kpr(1) by (intro mult_left_mono) simp_all
    then have "\<bar>d\<bar> / rat_of_int kp \<le> \<bar>d\<bar>"
      using kpr(1) by (simp add: field_simps)
    with dr(2) have u: "\<bar>d\<bar> / rat_of_int kp \<le> 2 powi 64" by simp
    from rnd_ge_pow2 [OF l] rnd_le_pow2 [OF u]
    have "1 / 2 ^ 64 \<le> q" "q \<le> 2 ^ 64"
      by (simp_all add: q_def power_int_minus field_simps)
    with sub dev dr show ?thesis by blast
  qed
qed


section \<open>Properties of the callbacks\<close>


lemma arming_test:
  "dgreater (Finite x) RELATIVE_INHIBITION_THRESHOLD \<longleftrightarrow> rnd (2 / 25) < x"
  by (simp add: threshold_eq)

lemma lightSpeedCallback_unfold:
  "lightSpeedCallback s p =
     \<lparr>mLastTurnTime = p,
      mInhibitRounds = (if dgreater (relative_deviation (mLastTurnTime s) p)
                               RELATIVE_INHIBITION_THRESHOLD
                        then 2 else mInhibitRounds s)\<rparr>"
  by (simp add: lightSpeedCallback_def Let_def)

lemma hallSpeedCallback_rounds:
  "unat (mInhibitRounds (hallSpeedCallback s t)) = unat (mInhibitRounds s) - 1"
proof (cases "mInhibitRounds s = 0")
  case True
  then show ?thesis by (simp add: hallSpeedCallback_def)
next
  case False
  then have "0 < mInhibitRounds s" by (simp add: word_neq_0_conv)
  moreover have "unat (mInhibitRounds s - 1) = unat (mInhibitRounds s) - 1"
    using False by (simp add: unat_minus_one)
  ultimately show ?thesis by (simp add: hallSpeedCallback_def)
qed

lemma hallSpeedCallback_last [simp]:
  "mLastTurnTime (hallSpeedCallback s t) = mLastTurnTime s"
  by (simp add: hallSpeedCallback_def)

lemma hallSpeedCallback_clear:
  "mInhibitRounds s = 0 \<Longrightarrow> hallSpeedCallback s t = s"
  by (simp add: hallSpeedCallback_def)

lemma lightSpeedCallback_rounds:
  "mInhibitRounds (lightSpeedCallback s p) = 2 \<or>
   mInhibitRounds (lightSpeedCallback s p) = mInhibitRounds s"
  by (simp add: lightSpeedCallback_unfold)

lemma exec_bounded:
  "unat (mInhibitRounds s) \<le> 2 \<Longrightarrow> unat (mInhibitRounds (exec s c)) \<le> 2"
proof (cases c)
  case (LightSpeed p)
  assume "unat (mInhibitRounds s) \<le> 2"
  with lightSpeedCallback_rounds [of s p] LightSpeed show ?thesis by auto
next
  case (HallSpeed t)
  assume "unat (mInhibitRounds s) \<le> 2"
  with hallSpeedCallback_rounds [of s t] HallSpeed show ?thesis by simp
next
  case IsInhibited
  assume "unat (mInhibitRounds s) \<le> 2"
  with IsInhibited show ?thesis by simp
qed

lemma run_bounded:
  "unat (mInhibitRounds s) \<le> 2 \<Longrightarrow> unat (mInhibitRounds (run s cs)) \<le> 2"
  unfolding run_def
  by (induction cs arbitrary: s) (simp_all add: exec_bounded)

lemma run_ticks_clear:
  "mInhibitRounds s = 0 \<Longrightarrow> run s (map HallSpeed ts) = s"
  unfolding run_def
  by (induction ts) (simp_all add: hallSpeedCallback_clear)

lemma run_ticks_last:
  "mLastTurnTime (run s (map HallSpeed ts)) = mLastTurnTime s"
  unfolding run_def
  by (induction ts arbitrary: s) simp_all

lemma isInhibited_unat: "isInhibited s \<longleftrightarrow> 0 < unat (mInhibitRounds s)"
  by (simp add: isInhibited_def unat_gt_0)


text \<open>
  A last turn time of \<open>2 ^ 53\<close> or more against a sample of at most \<open>2 ^ 57 / 31\<close>:
  the computed deviation is at least \<open>1 / 4\<close>, whatever the conversion of the last
  turn time rounds to.
\<close>

lemma dev_large_int:
  fixes u v :: int
  assumes "2 ^ 53 \<le> u" and "0 < v" and "31 * v \<le> 2 ^ 57"
  shows "\<exists>q. ddiv (fabs (dsub (Finite (rnd (of_int u))) (Finite (rnd (of_int v)))))
                   (Finite (rnd (of_int v))) = Finite q \<and> 1 / 4 \<le> q"
proof -
  define A where "A = rnd (rat_of_int u)"
  define V where "V = rat_of_int v"
  have v: "rnd (of_int v) = V"
    unfolding V_def using assms(2,3) by (intro rnd_of_int_exact) simp
  have V0: "0 < V" using assms(2) by (simp add: V_def)
  have "rat_of_int (31 * v) \<le> of_int (2 ^ 57)" using assms(3) by (simp only: of_int_le_iff)
  then have Vb: "31 * V \<le> 2 ^ 57" by (simp add: V_def)
  have "rat_of_int (2 ^ 53) \<le> of_int u" using assms(1) by (simp only: of_int_le_iff)
  then have "2 powi 53 \<le> rat_of_int u" by simp
  from rnd_ge_pow2 [OF this] have Ab: "2 ^ 53 \<le> A" by (simp add: A_def)
  have "2 powi 51 \<le> A - V" using Ab Vb by simp
  from rnd_ge_pow2 [OF this] have db: "2 ^ 51 \<le> rnd (A - V)" by simp
  then have dabs: "\<bar>rnd (A - V)\<bar> = rnd (A - V)" by simp
  have "V \<le> 4 * rnd (A - V)" using db Vb by simp
  then have "2 powi (- 2) \<le> rnd (A - V) / V"
    using V0 by (simp add: field_simps)
  from rnd_ge_pow2 [OF this] have "1 / 4 \<le> rnd (rnd (A - V) / V)" by simp
  then show ?thesis
    using V0 unfolding v A_def [symmetric] by (simp add: dabs)
qed

lemma relative_deviation_large:
  assumes "2 ^ 53 \<le> uint a" and "0 < uint p" and "31 * uint p \<le> 2 ^ 57"
  shows "\<exists>q. relative_deviation a p = Finite q \<and> 1 / 4 \<le> q"
  unfolding relative_deviation_def double_of_ulong_def
  using assms by (rule dev_large_int)


section \<open>The claims\<close>


subsection \<open>C1: the effect of a fine speed sample\<close>

text \<open>
  Claim C1, as it holds of the code. The claim compares the exact quotient
  \<open>d = |lastPeriod - p| / p\<close> with \<open>0.08\<close>; the code compares the rounded double
  quotient with the double nearest to \<open>0.08\<close>. The two tests agree for every state,
  whatever its last turn time, whenever the new period \<open>p\<close> is positive and at most
  \<open>2 ^ 57 / 31\<close> (so in particular whenever \<open>p\<close> is below \<open>2 ^ 52\<close>, and for all
  32-bit values). For such \<open>p\<close> \<^verbatim>\<open>lightSpeedCallback\<close> sets the round counter to 2
  when \<open>d > 8 / 100\<close>, whatever the counter was, leaves it as it is otherwise, and
  stores \<open>p\<close> as the last turn time in both cases.
\<close>
theorem lightSpeedCallback_exact_test:
  assumes "0 < uint p" and "31 * uint p \<le> 2 ^ 57"
  shows "lightSpeedCallback s p =
           \<lparr>mLastTurnTime = p,
            mInhibitRounds =
              (if 2 / 25 < \<bar>rat_of_int (uint (mLastTurnTime s)) - of_int (uint p)\<bar> / of_int (uint p)
               then 2 else mInhibitRounds s)\<rparr>"
proof -
  define u where "u = uint (mLastTurnTime s)"
  define v where "v = uint p"
  have p0: "p \<noteq> 0" using assms(1) by auto
  have v0: "0 < v" using assms(1) by (simp only: v_def)
  have v53: "v < 2 ^ 53" using assms(2) unfolding v_def by simp
  have "dgreater (relative_deviation (mLastTurnTime s) p) RELATIVE_INHIBITION_THRESHOLD
        \<longleftrightarrow> 2 / 25 < \<bar>rat_of_int u - of_int v\<bar> / of_int v"
  proof (cases "u < 2 ^ 53")
    case True
    have dev: "relative_deviation (mLastTurnTime s) p =
                 Finite (rnd (rat_of_int \<bar>u - v\<bar> / of_int v))"
      using relative_deviation_exact [OF _ _ p0, of "mLastTurnTime s"] True v53
      by (simp add: u_def v_def)
    have "rnd (2 / 25) < rnd (rat_of_int \<bar>u - v\<bar> / of_int v) \<longleftrightarrow>
          2 / 25 < rat_of_int \<bar>u - v\<bar> / of_int v"
      using assms by (intro deviation_test_exact) (simp_all add: v_def)
    then show ?thesis unfolding dev arming_test by simp
  next
    case False
    then have big: "2 ^ 53 \<le> u" by simp
    from relative_deviation_large [OF _ assms, of "mLastTurnTime s"] big
    obtain q where q: "relative_deviation (mLastTurnTime s) p = Finite q" "1 / 4 \<le> q"
      unfolding u_def by blast
    have armed: "dgreater (relative_deviation (mLastTurnTime s) p) RELATIVE_INHIBITION_THRESHOLD"
      unfolding q(1) arming_test using q(2) by (simp add: threshold_value)
    have "31 * v \<le> 2 ^ 57" using assms(2) by (simp only: v_def)
    with big have "2 * v < 25 * (u - v)" by simp
    then have "rat_of_int (2 * v) < of_int (25 * (u - v))" by (simp only: of_int_less_iff)
    then have "2 * rat_of_int v < 25 * (rat_of_int u - of_int v)" by simp
    moreover have "0 < rat_of_int v" using v0 by (simp only: of_int_0_less_iff)
    ultimately have "2 / 25 < \<bar>rat_of_int u - of_int v\<bar> / of_int v"
      by (simp add: field_simps)
    with armed show ?thesis by simp
  qed
  then show ?thesis
    unfolding lightSpeedCallback_unfold u_def v_def by simp
qed

text \<open>
  The theorem used at last turn time 1000 and sample 1100 (a deviation of \<open>1 / 11\<close>):
  the counter is set to 2; at sample 1050 (a deviation of \<open>1 / 21\<close>): the counter
  stays at 0; and at a last turn time above \<open>2 ^ 53\<close> with sample 1050: the counter is
  set to 2.
\<close>
theorem lightSpeedCallback_exact_test_witness:
  "0 < uint (1100 :: ulong) \<and> 31 * uint (1100 :: ulong) \<le> 2 ^ 57
   \<and> lightSpeedCallback \<lparr>mLastTurnTime = 1000, mInhibitRounds = 0\<rparr> 1100
       = \<lparr>mLastTurnTime = 1100, mInhibitRounds = 2\<rparr>
   \<and> 0 < uint (1050 :: ulong) \<and> 31 * uint (1050 :: ulong) \<le> 2 ^ 57
   \<and> lightSpeedCallback \<lparr>mLastTurnTime = 1000, mInhibitRounds = 0\<rparr> 1050
       = \<lparr>mLastTurnTime = 1050, mInhibitRounds = 0\<rparr>
   \<and> lightSpeedCallback \<lparr>mLastTurnTime = 9007199254741059, mInhibitRounds = 0\<rparr> 1050
       = \<lparr>mLastTurnTime = 1050, mInhibitRounds = 2\<rparr>"
  using lightSpeedCallback_exact_test [of 1100 "\<lparr>mLastTurnTime = 1000, mInhibitRounds = 0\<rparr>"]
    lightSpeedCallback_exact_test [of 1050 "\<lparr>mLastTurnTime = 1000, mInhibitRounds = 0\<rparr>"]
    lightSpeedCallback_exact_test [of 1050 "\<lparr>mLastTurnTime = 9007199254741059, mInhibitRounds = 0\<rparr>"]
  by simp

text \<open>
  Claim C1 as stated fails for larger samples, and the bound on \<open>p\<close> is tight: the
  sample 4648877034705037 is the ninth integer above \<open>2 ^ 57 / 31\<close>. With last turn
  time 5020787197481440 and that sample (both below \<open>2 ^ 53\<close>, so both conversions and
  the subtraction are exact) the exact deviation is above \<open>8 / 100\<close>, by less than
  \<open>10 ^ - 17\<close>; the rounded quotient equals the threshold constant and the counter is not
  set.
\<close>
theorem lightSpeedCallback_rounding_counterexample:
  "(2 / 25 :: rat) < \<bar>5020787197481440 - 4648877034705037\<bar> / 4648877034705037
   \<and> lightSpeedCallback \<lparr>mLastTurnTime = 5020787197481440, mInhibitRounds = 0\<rparr>
        4648877034705037
       = \<lparr>mLastTurnTime = 4648877034705037, mInhibitRounds = 0\<rparr>"
  by code_simp


subsection \<open>C2: the query\<close>

text \<open>
  Claim C2. After every sequence of calls from every state, \<^verbatim>\<open>isInhibited\<close>
  returns true exactly when the round counter is positive; this holds of every state; and
  the call itself leaves the object unchanged.
\<close>
theorem isInhibited_iff_rounds_positive:
  "isInhibited (run s cs) = (0 < unat (mInhibitRounds (run s cs)))
   \<and> isInhibited s = (0 < unat (mInhibitRounds s))
   \<and> exec s IsInhibited = s"
  by (simp add: isInhibited_def unat_gt_0)


subsection \<open>C3: the countdown\<close>

text \<open>
  Claim C3. When the round counter is positive, \<^verbatim>\<open>hallSpeedCallback\<close> decrements
  it by exactly one (read as a natural number, so without wrap-around); when it is zero
  the call changes nothing; and the inhibit flag goes from true to false on exactly the
  call made with the counter at 1.
\<close>
theorem hallSpeedCallback_counts_down:
  "(0 < unat (mInhibitRounds s) \<longrightarrow>
      unat (mInhibitRounds (hallSpeedCallback s t)) + 1 = unat (mInhibitRounds s)
      \<and> hallSpeedCallback s t = s\<lparr>mInhibitRounds := mInhibitRounds s - 1\<rparr>)
   \<and> (mInhibitRounds s = 0 \<longrightarrow> hallSpeedCallback s t = s)
   \<and> ((isInhibited s \<and> \<not> isInhibited (hallSpeedCallback s t)) \<longleftrightarrow> unat (mInhibitRounds s) = 1)"
proof -
  have a: "unat (mInhibitRounds (hallSpeedCallback s t)) + 1 = unat (mInhibitRounds s)"
    if "0 < unat (mInhibitRounds s)"
    using that hallSpeedCallback_rounds [of s t] by simp
  have b: "hallSpeedCallback s t = s\<lparr>mInhibitRounds := mInhibitRounds s - 1\<rparr>"
    if "0 < unat (mInhibitRounds s)"
    using that by (simp add: hallSpeedCallback_def unat_gt_0 word_neq_0_conv)
  have c: "(isInhibited s \<and> \<not> isInhibited (hallSpeedCallback s t)) \<longleftrightarrow>
           unat (mInhibitRounds s) = 1"
    unfolding isInhibited_unat hallSpeedCallback_rounds by auto
  from a b c hallSpeedCallback_clear [of s t] show ?thesis by blast
qed

text \<open>
  The theorem used with the counter at 2, at 0 and at 1.
\<close>
theorem hallSpeedCallback_counts_down_witness:
  "0 < unat (mInhibitRounds \<lparr>mLastTurnTime = 1000, mInhibitRounds = 2\<rparr>)
   \<and> hallSpeedCallback \<lparr>mLastTurnTime = 1000, mInhibitRounds = 2\<rparr> 7
       = \<lparr>mLastTurnTime = 1000, mInhibitRounds = 1\<rparr>
   \<and> mInhibitRounds \<lparr>mLastTurnTime = 1000, mInhibitRounds = 0\<rparr> = 0
   \<and> hallSpeedCallback \<lparr>mLastTurnTime = 1000, mInhibitRounds = 0\<rparr> 7
       = \<lparr>mLastTurnTime = 1000, mInhibitRounds = 0\<rparr>
   \<and> isInhibited \<lparr>mLastTurnTime = 1000, mInhibitRounds = 1\<rparr>
   \<and> \<not> isInhibited (hallSpeedCallback \<lparr>mLastTurnTime = 1000, mInhibitRounds = 1\<rparr> 7)"
  using hallSpeedCallback_counts_down [of "\<lparr>mLastTurnTime = 1000, mInhibitRounds = 2\<rparr>" 7]
    hallSpeedCallback_counts_down [of "\<lparr>mLastTurnTime = 1000, mInhibitRounds = 0\<rparr>" 7]
    hallSpeedCallback_counts_down [of "\<lparr>mLastTurnTime = 1000, mInhibitRounds = 1\<rparr>" 7]
  by (simp add: isInhibited_def)


subsection \<open>C4: the range of the round counter\<close>

text \<open>
  Claim C4. After every sequence of calls on a freshly constructed object the round
  counter is 0, 1 or 2; \<^verbatim>\<open>hallSpeedCallback\<close> never increases it; and
  \<^verbatim>\<open>lightSpeedCallback\<close> either sets it to 2 or leaves it unchanged.
\<close>
theorem rounds_stay_within_two:
  "unat (mInhibitRounds (run Inhibitor_init cs)) \<in> {0, 1, 2}
   \<and> unat (mInhibitRounds (hallSpeedCallback s t)) \<le> unat (mInhibitRounds s)
   \<and> (mInhibitRounds (lightSpeedCallback s p) = 2
        \<or> mInhibitRounds (lightSpeedCallback s p) = mInhibitRounds s)"
proof -
  have "unat (mInhibitRounds (run Inhibitor_init cs)) \<le> 2"
    by (rule run_bounded) (simp add: Inhibitor_init_def)
  then have "unat (mInhibitRounds (run Inhibitor_init cs)) \<in> {0, 1, 2}"
    by auto
  moreover have "unat (mInhibitRounds (hallSpeedCallback s t)) \<le> unat (mInhibitRounds s)"
    by (simp add: hallSpeedCallback_rounds)
  ultimately show ?thesis using lightSpeedCallback_rounds [of s p] by blast
qed


subsection \<open>C5: the first sample after construction\<close>

text \<open>
  Claim C5. For every positive \<open>p\<close>, the first call \<^verbatim>\<open>lightSpeedCallback(p)\<close> on
  a freshly constructed object computes a relative deviation of exactly 1 (the last turn
  time is 0), sets the round counter to 2, and \<^verbatim>\<open>isInhibited\<close> is true afterwards.
  This holds for every 64-bit \<open>p\<close>, also where the conversion of \<open>p\<close> is inexact.
\<close>
theorem first_sample_arms:
  assumes "0 < uint p"
  shows "relative_deviation (mLastTurnTime Inhibitor_init) p = Finite 1
         \<and> lightSpeedCallback Inhibitor_init p = \<lparr>mLastTurnTime = p, mInhibitRounds = 2\<rparr>
         \<and> isInhibited (lightSpeedCallback Inhibitor_init p)"
proof -
  have p0: "p \<noteq> 0" using assms by auto
  have d: "relative_deviation (mLastTurnTime Inhibitor_init) p = Finite 1"
    using relative_deviation_from_zero [OF p0] by (simp add: Inhibitor_init_def)
  have "dgreater (Finite 1) RELATIVE_INHIBITION_THRESHOLD"
    unfolding arming_test by (simp add: threshold_value)
  with d have "lightSpeedCallback Inhibitor_init p = \<lparr>mLastTurnTime = p, mInhibitRounds = 2\<rparr>"
    by (simp add: lightSpeedCallback_unfold)
  with d show ?thesis by (simp add: isInhibited_def)
qed

text \<open>
  The theorem used at \<open>p = 1000\<close>.
\<close>
theorem first_sample_arms_witness:
  "0 < uint (1000 :: ulong)
   \<and> lightSpeedCallback Inhibitor_init 1000 = \<lparr>mLastTurnTime = 1000, mInhibitRounds = 2\<rparr>
   \<and> isInhibited (lightSpeedCallback Inhibitor_init 1000)"
  using first_sample_arms [of 1000] by (simp add: isInhibited_def)


subsection \<open>C6: revolution ticks in the clear state\<close>

text \<open>
  Claim C6. From a state with the round counter at 0, any sequence of
  \<^verbatim>\<open>hallSpeedCallback\<close> calls, with any arguments, leaves the state as it is, and
  \<^verbatim>\<open>isInhibited\<close> is false after every prefix of the sequence (the first \<open>k\<close>
  calls, for every \<open>k\<close>).
\<close>
theorem ticks_from_clear_stay_clear:
  assumes "mInhibitRounds s = 0"
  shows "run s (map HallSpeed (take k ts)) = s
         \<and> \<not> isInhibited (run s (map HallSpeed (take k ts)))"
  using assms run_ticks_clear [OF assms, of "take k ts"] by (simp add: isInhibited_def)

text \<open>
  The theorem used for ten ticks in a row on a freshly constructed object.
\<close>
theorem ticks_from_clear_stay_clear_witness:
  "mInhibitRounds Inhibitor_init = 0
   \<and> run Inhibitor_init (map HallSpeed (take 10 [1, 2, 3, 4, 5, 6, 7, 8, 9, 10, 11])) = Inhibitor_init
   \<and> \<not> isInhibited (run Inhibitor_init (map HallSpeed (take 10 [1, 2, 3, 4, 5, 6, 7, 8, 9, 10, 11])))"
  using ticks_from_clear_stay_clear [of Inhibitor_init 10 "[1, 2, 3, 4, 5, 6, 7, 8, 9, 10, 11]"]
  by (simp add: Inhibitor_init_def isInhibited_def)


subsection \<open>C7: a deviation of exactly the threshold\<close>

text \<open>
  Claim C7, as it holds of the code. When the last turn time and the positive sample
  \<open>p\<close> are both below \<open>2 ^ 53\<close>, so that their conversions to double are exact, and
  the exact deviation \<open>|lastPeriod - p| / p\<close> equals \<open>8 / 100\<close>, the call
  \<^verbatim>\<open>lightSpeedCallback(p)\<close> leaves the round counter and the inhibit flag unchanged:
  the quotient rounds to the very double that the constant \<open>0.08\<close> denotes, and the
  comparison is strict.
\<close>
theorem exact_threshold_does_not_arm:
  assumes "uint (mLastTurnTime s) < 2 ^ 53" and "0 < uint p" and "uint p < 2 ^ 53"
    and "25 * \<bar>uint (mLastTurnTime s) - uint p\<bar> = 2 * uint p"
  shows "\<bar>rat_of_int (uint (mLastTurnTime s)) - of_int (uint p)\<bar> / of_int (uint p) = 2 / 25
         \<and> mInhibitRounds (lightSpeedCallback s p) = mInhibitRounds s
         \<and> isInhibited (lightSpeedCallback s p) = isInhibited s"
proof -
  define u where "u = uint (mLastTurnTime s)"
  define v where "v = uint p"
  have p0: "p \<noteq> 0" using assms(2) by auto
  have "0 < v" using assms(2) by (simp only: v_def)
  then have v0: "0 < rat_of_int v" by (simp only: of_int_0_less_iff)
  have "rat_of_int (25 * \<bar>u - v\<bar>) = of_int (2 * v)"
    using assms(4) unfolding u_def v_def by (simp only:)
  then have "25 * \<bar>rat_of_int u - of_int v\<bar> = 2 * of_int v" by simp
  with v0 have q: "\<bar>rat_of_int u - of_int v\<bar> / of_int v = 2 / 25"
    by (simp add: field_simps)
  have "relative_deviation (mLastTurnTime s) p = Finite (rnd (2 / 25))"
    using relative_deviation_exact [OF assms(1) assms(3) p0] q
    by (simp only: u_def v_def)
  then have "\<not> dgreater (relative_deviation (mLastTurnTime s) p) RELATIVE_INHIBITION_THRESHOLD"
    by (simp add: arming_test)
  then have "mInhibitRounds (lightSpeedCallback s p) = mInhibitRounds s"
    by (simp add: lightSpeedCallback_unfold)
  with q show ?thesis by (simp add: isInhibited_def u_def v_def)
qed

text \<open>
  The theorem used at last turn time 27 and sample 25 (deviation \<open>2 / 25\<close>).
\<close>
theorem exact_threshold_does_not_arm_witness:
  "uint (mLastTurnTime \<lparr>mLastTurnTime = 27, mInhibitRounds = 0\<rparr>) < 2 ^ 53
   \<and> 0 < uint (25 :: ulong) \<and> uint (25 :: ulong) < 2 ^ 53
   \<and> 25 * \<bar>uint (mLastTurnTime \<lparr>mLastTurnTime = 27, mInhibitRounds = 0\<rparr>) - uint (25 :: ulong)\<bar>
       = 2 * uint (25 :: ulong)
   \<and> mInhibitRounds (lightSpeedCallback \<lparr>mLastTurnTime = 27, mInhibitRounds = 0\<rparr> 25) = 0
   \<and> \<not> isInhibited (lightSpeedCallback \<lparr>mLastTurnTime = 27, mInhibitRounds = 0\<rparr> 25)"
  using exact_threshold_does_not_arm [of "\<lparr>mLastTurnTime = 27, mInhibitRounds = 0\<rparr>" 25]
  by (simp add: isInhibited_def)

text \<open>
  Claim C7 as stated fails for larger values. With last turn time 9007199254741059
  (above \<open>2 ^ 53\<close>, so its conversion is inexact) and sample 8339999309945425 the exact
  deviation is \<open>2 / 25\<close>, and the call arms inhibition from the clear state.
\<close>
theorem exact_threshold_arms_counterexample:
  "(\<bar>9007199254741059 - 8339999309945425\<bar> / 8339999309945425 :: rat) = 2 / 25
   \<and> \<not> isInhibited \<lparr>mLastTurnTime = 9007199254741059, mInhibitRounds = 0\<rparr>
   \<and> lightSpeedCallback \<lparr>mLastTurnTime = 9007199254741059, mInhibitRounds = 0\<rparr>
        8339999309945425
       = \<lparr>mLastTurnTime = 8339999309945425, mInhibitRounds = 2\<rparr>
   \<and> isInhibited (lightSpeedCallback \<lparr>mLastTurnTime = 9007199254741059, mInhibitRounds = 0\<rparr>
        8339999309945425)"
  by code_simp


subsection \<open>C8: repeated samples of the same period\<close>

text \<open>
  Claim C8. For every positive \<open>p\<close> and every state whose last turn time is \<open>p\<close>,
  the computed deviation is exactly 0 and any number \<open>n\<close> of calls
  \<^verbatim>\<open>lightSpeedCallback(p)\<close> leaves the whole state unchanged.
\<close>
theorem steady_state_unchanged:
  assumes "0 < uint p" and "mLastTurnTime s = p"
  shows "relative_deviation (mLastTurnTime s) p = Finite 0
         \<and> ((\<lambda>x. lightSpeedCallback x p) ^^ n) s = s"
proof -
  have p0: "p \<noteq> 0" using assms(1) by auto
  have d: "relative_deviation (mLastTurnTime s) p = Finite 0"
    using relative_deviation_same [OF p0] assms(2) by simp
  have "\<not> dgreater (Finite 0) RELATIVE_INHIBITION_THRESHOLD"
    unfolding arming_test by (simp add: threshold_value)
  with d have one: "lightSpeedCallback s p = s"
    using assms(2) by (simp add: lightSpeedCallback_unfold)
  have "((\<lambda>x. lightSpeedCallback x p) ^^ n) s = s"
    by (induction n) (simp_all add: one)
  with d show ?thesis by simp
qed

text \<open>
  The theorem used for three calls with \<open>p = 1000\<close> while the counter is at 1.
\<close>
theorem steady_state_unchanged_witness:
  "0 < uint (1000 :: ulong)
   \<and> mLastTurnTime \<lparr>mLastTurnTime = 1000, mInhibitRounds = 1\<rparr> = 1000
   \<and> lightSpeedCallback (lightSpeedCallback (lightSpeedCallback
        \<lparr>mLastTurnTime = 1000, mInhibitRounds = 1\<rparr> 1000) 1000) 1000
       = \<lparr>mLastTurnTime = 1000, mInhibitRounds = 1\<rparr>"
  using steady_state_unchanged [of 1000 "\<lparr>mLastTurnTime = 1000, mInhibitRounds = 1\<rparr>" 3]
  by (simp add: numeral_3_eq_3)


subsection \<open>C9: the argument of the revolution tick\<close>

text \<open>
  Claim C9. The state after \<^verbatim>\<open>hallSpeedCallback\<close> does not depend on its argument:
  from the same state, any two argument values give the same resulting state.
\<close>
theorem hallSpeedCallback_ignores_period:
  "hallSpeedCallback s t1 = hallSpeedCallback s t2"
  by (simp add: hallSpeedCallback_def)


subsection \<open>C10: revolution ticks keep the last turn time\<close>

text \<open>
  Claim C10. \<^verbatim>\<open>hallSpeedCallback\<close> leaves the last turn time unchanged, for every
  state and argument: the state after the call differs from the state before at most in
  the round counter. Hence after a sample \<open>q\<close> followed by any number of revolution
  ticks the last turn time is still \<open>q\<close>, and the deviation of the next sample \<open>p\<close> is
  the one computed against \<open>q\<close>.
\<close>
theorem hallSpeedCallback_keeps_last_period:
  "mLastTurnTime (hallSpeedCallback s t) = mLastTurnTime s
   \<and> hallSpeedCallback s t = s\<lparr>mInhibitRounds := mInhibitRounds (hallSpeedCallback s t)\<rparr>
   \<and> mLastTurnTime (run (lightSpeedCallback s q) (map HallSpeed ts)) = q
   \<and> relative_deviation (mLastTurnTime (run (lightSpeedCallback s q) (map HallSpeed ts))) p
       = relative_deviation q p"
  by (simp add: run_ticks_last lightSpeedCallback_unfold hallSpeedCallback_def)


end
